theory Spec2Isabelle
  imports Main "HOL-Library.Multiset"
begin

section \<open>Data model\<close>

text \<open>
  \<^verbatim>\<open>ChatMessage\<close> (src/app/api/chat/route.ts) extended by \<^verbatim>\<open>ThreadedMessage\<close>
  (src/components/chat/MessagesList.tsx). The optional fields \<^verbatim>\<open>parentId?: string\<close> and
  \<^verbatim>\<open>threadIds?: string[]\<close> are options: \<open>None\<close> is JavaScript's \<^verbatim>\<open>undefined\<close>.
  The field \<^verbatim>\<open>id\<close> is called \<open>id_msg\<close> here, since \<open>id\<close> is HOL's identity function.
  The timestamp is \<^verbatim>\<open>Date.now()\<close>, a whole number of milliseconds.
\<close>

datatype Role = user | assistant | system

record ThreadedMessage =
  id_msg :: string
  role :: Role
  content :: string
  timestamp :: int
  parentId :: "string option"
  threadIds :: "string list option"

text \<open>
  The accumulator elements of the reducer in MessagesList.tsx, of type
  \<^verbatim>\<open>{ id: string; message: ThreadedMessage; replies: ThreadedMessage[] }\<close>.
\<close>

record MessageGroup =
  id_grp :: string
  message :: ThreadedMessage
  replies :: "ThreadedMessage list"

section \<open>Grouping (MessagesList.tsx, lines 46 to 69)\<close>

text \<open>
  The test \<^verbatim>\<open>if (message.parentId)\<close> is JavaScript truthiness of a \<^verbatim>\<open>string | undefined\<close>:
  it fails for \<^verbatim>\<open>undefined\<close> and for the empty string.
\<close>

definition truthy :: "string option \<Rightarrow> bool" where
  "truthy v = (case v of None \<Rightarrow> False | Some s \<Rightarrow> s \<noteq> [])"

text \<open>
  \<^verbatim>\<open>groups.find(pred)\<close> returns a reference to the first element that satisfies
  \<^verbatim>\<open>pred\<close>, or \<^verbatim>\<open>undefined\<close>. The reference is modelled by the position of that element.
\<close>

fun find_pos :: "('a \<Rightarrow> bool) \<Rightarrow> 'a list \<Rightarrow> nat option" where
  "find_pos P [] = None"
| "find_pos P (x # xs) =
     (if P x then Some 0
      else (case find_pos P xs of None \<Rightarrow> None | Some i \<Rightarrow> Some (Suc i)))"

text \<open>The object literal \<^verbatim>\<open>{ id: message.id, message, replies: [] }\<close>.\<close>

definition new_group :: "ThreadedMessage \<Rightarrow> MessageGroup" where
  "new_group m = \<lparr>id_grp = id_msg m, message = m, replies = []\<rparr>"

text \<open>
  The callback of \<^verbatim>\<open>messages.reduce\<close>. \<^verbatim>\<open>parentGroup.replies.push(message)\<close> mutates the
  group that \<^verbatim>\<open>find\<close> returned, in place inside \<^verbatim>\<open>groups\<close>; every group and every
  \<^verbatim>\<open>replies\<close> array is created fresh by the object literal, so nothing else aliases it.
\<close>

definition reducer :: "MessageGroup list \<Rightarrow> ThreadedMessage \<Rightarrow> MessageGroup list" where
  "reducer groups m =
     (if truthy (parentId m) then
        (case find_pos (\<lambda>group. Some (id_grp group) = parentId m) groups of
           Some i \<Rightarrow> groups[i := (groups ! i)\<lparr>replies := replies (groups ! i) @ [m]\<rparr>]
         | None \<Rightarrow> groups @ [new_group m])
      else groups @ [new_group m])"

text \<open>\<^verbatim>\<open>messages.reduce(callback, [])\<close>: a left fold from a fresh empty array.\<close>

definition messageGroups :: "ThreadedMessage list \<Rightarrow> MessageGroup list" where
  "messageGroups messages = foldl reducer [] messages"

section \<open>The message store (ChatContainer, lines 113 to 204)\<close>

text \<open>
  The store is the React state \<^verbatim>\<open>messages\<close>. Every insertion is the state update
  \<^verbatim>\<open>setMessages(prev => [...prev, msg])\<close>; the source has no other check or branch there.
\<close>

type_synonym store = "ThreadedMessage list"

definition append_msg :: "store \<Rightarrow> ThreadedMessage \<Rightarrow> store" where
  "append_msg prev msg = prev @ [msg]"

text \<open>
  One rendering of \<^verbatim>\<open>MessagesList\<close>: the groups are computed from the \<^verbatim>\<open>messages\<close> prop,
  which the reducer only reads. The store is returned next to the result.
\<close>

definition group_op :: "store \<Rightarrow> MessageGroup list \<times> store" where
  "group_op s = (messageGroups s, s)"

section \<open>Specification vocabulary\<close>

text \<open>
  The definitions of this section are not code of the repository: they are the notions
  the statements below are written in.
\<close>

text \<open>
  The insertion operation as the specification describes it, with the recommended check:
  it fails with \<open>DuplicateIdError\<close> when the id is already in the store. It is compared
  below with \<open>append_msg\<close>, the insertion the source performs.
\<close>

datatype error = DuplicateIdError

definition append_spec :: "store \<Rightarrow> ThreadedMessage \<Rightarrow> error + store" where
  "append_spec s m =
     (if id_msg m \<in> set (map id_msg s) then Inl DuplicateIdError else Inr (s @ [m]))"

text \<open>The replies addressed to the id \<open>p\<close>: the messages that pass the reducer's test
  \<^verbatim>\<open>if (message.parentId)\<close> and whose \<^verbatim>\<open>parentId\<close> is \<open>p\<close>, in their order.\<close>

definition replies_to :: "string \<Rightarrow> ThreadedMessage list \<Rightarrow> ThreadedMessage list" where
  "replies_to p ms = filter (\<lambda>m. truthy (parentId m) \<and> parentId m = Some p) ms"

text \<open>The messages that fail the reducer's test, so that they start a group of their own.\<close>

definition anchors :: "ThreadedMessage list \<Rightarrow> ThreadedMessage list" where
  "anchors msgs = filter (\<lambda>m. \<not> truthy (parentId m)) msgs"

definition thread_of :: "ThreadedMessage list \<Rightarrow> ThreadedMessage \<Rightarrow> MessageGroup" where
  "thread_of msgs a = \<lparr>id_grp = id_msg a, message = a, replies = replies_to (id_msg a) msgs\<rparr>"

text \<open>Every message that passes the reducer's test refers to the id of an earlier message
  that fails it.\<close>

definition parents_resolve :: "ThreadedMessage list \<Rightarrow> bool" where
  "parents_resolve msgs =
     (\<forall>i<length msgs. truthy (parentId (msgs ! i)) \<longrightarrow>
        (\<exists>j<i. \<not> truthy (parentId (msgs ! j)) \<and> parentId (msgs ! i) = Some (id_msg (msgs ! j))))"

text \<open>The group at position \<open>k\<close> is the first one with its id: the one \<^verbatim>\<open>find\<close> returns.\<close>

definition first_with_id :: "MessageGroup list \<Rightarrow> nat \<Rightarrow> bool" where
  "first_with_id gs k = (\<forall>j<k. id_grp (gs ! j) \<noteq> id_grp (gs ! k))"

text \<open>All messages of a list of groups: each anchor followed by its replies.\<close>

definition flatten :: "MessageGroup list \<Rightarrow> ThreadedMessage list" where
  "flatten gs = concat (map (\<lambda>g. message g # replies g) gs)"

definition group_ok :: "MessageGroup \<Rightarrow> bool" where
  "group_ok g = (id_grp g = id_msg (message g) \<and>
     (\<forall>r\<in>set (replies g). truthy (parentId r) \<and> parentId r = Some (id_grp g)))"

text \<open>A user message with the given \<^verbatim>\<open>id\<close> and \<^verbatim>\<open>parentId\<close>, for the concrete examples.\<close>

definition msg :: "string \<Rightarrow> string option \<Rightarrow> ThreadedMessage" where
  "msg i p = \<lparr>id_msg = i, role = user, content = [], timestamp = 0, parentId = p, threadIds = None\<rparr>"

section \<open>Basic facts\<close>

lemmas eval_defs = messageGroups_def reducer_def truthy_def new_group_def msg_def

lemma messageGroups_snoc: "messageGroups (ms @ [m]) = reducer (messageGroups ms) m"
  by (simp add: messageGroups_def)

lemma messageGroups_Cons_after:
  "messageGroups (pre @ m # post) = foldl reducer (reducer (messageGroups pre) m) post"
  by (simp add: messageGroups_def)

subsection \<open>What \<^verbatim>\<open>find\<close> returns\<close>

lemma find_pos_None: "find_pos P xs = None \<longleftrightarrow> (\<forall>x\<in>set xs. \<not> P x)"
  by (induction xs) (auto split: option.splits)

lemma find_pos_Some:
  "find_pos P xs = Some i \<longleftrightarrow> i < length xs \<and> P (xs ! i) \<and> (\<forall>j<i. \<not> P (xs ! j))"
proof (induction xs arbitrary: i)
  case Nil
  then show ?case by simp
next
  case (Cons x xs)
  show ?case
  proof (cases "P x")
    case True
    then show ?thesis by (cases i) auto
  next
    case False
    show ?thesis
    proof (cases i)
      case 0
      with False show ?thesis by (auto split: option.splits)
    next
      case (Suc k)
      have "(\<forall>j<Suc k. \<not> P ((x # xs) ! j)) \<longleftrightarrow> (\<forall>j<k. \<not> P (xs ! j))"
        using False by (auto simp: less_Suc_eq_0_disj)
      with False Suc Cons.IH [of k] show ?thesis
        by (auto split: option.splits)
    qed
  qed
qed

subsection \<open>One step of the reducer\<close>

lemma reducer_new:
  "\<not> truthy (parentId m) \<or> (\<forall>g\<in>set gs. Some (id_grp g) \<noteq> parentId m) \<Longrightarrow>
   reducer gs m = gs @ [new_group m]"
  by (auto simp: reducer_def find_pos_None split: option.splits)
     (auto simp: find_pos_Some)

lemma reducer_push:
  "truthy (parentId m) \<Longrightarrow> find_pos (\<lambda>g. Some (id_grp g) = parentId m) gs = Some i \<Longrightarrow>
   reducer gs m = gs[i := (gs ! i)\<lparr>replies := replies (gs ! i) @ [m]\<rparr>]"
  by (simp add: reducer_def)

lemma reducer_cases:
  obtains (new) "reducer gs m = gs @ [new_group m]"
      "\<not> truthy (parentId m) \<or> (\<forall>g\<in>set gs. Some (id_grp g) \<noteq> parentId m)"
    | (push) i where "reducer gs m = gs[i := (gs ! i)\<lparr>replies := replies (gs ! i) @ [m]\<rparr>]"
      "truthy (parentId m)" "i < length gs" "Some (id_grp (gs ! i)) = parentId m"
      "\<forall>j<i. Some (id_grp (gs ! j)) \<noteq> parentId m"
proof (cases "truthy (parentId m)")
  case False
  then show ?thesis using new reducer_new by blast
next
  case True
  show ?thesis
  proof (cases "find_pos (\<lambda>g. Some (id_grp g) = parentId m) gs")
    case None
    then show ?thesis using new reducer_new by (auto simp: find_pos_None)
  next
    case (Some i)
    with True push [of i] show ?thesis
      by (auto simp: reducer_push find_pos_Some)
  qed
qed

lemma reducer_nth:
  assumes "k < length gs"
  shows "reducer gs m ! k =
    (gs ! k)\<lparr>replies := replies (gs ! k) @
       (if first_with_id gs k then replies_to (id_grp (gs ! k)) [m] else [])\<rparr>"
proof (cases gs m rule: reducer_cases)
  case new
  have "replies_to (id_grp (gs ! k)) [m] = []"
    using new(2) assms by (auto simp: replies_to_def)
  with new(1) assms show ?thesis by (simp add: nth_append)
next
  case (push i)
  show ?thesis
  proof (cases "k = i")
    case True
    with push assms show ?thesis
      by (auto simp: first_with_id_def replies_to_def)
  next
    case False
    have "\<not> (first_with_id gs k \<and> Some (id_grp (gs ! k)) = parentId m)"
    proof
      assume a: "first_with_id gs k \<and> Some (id_grp (gs ! k)) = parentId m"
      have "k < i \<or> i < k" using False by arith
      then show False
      proof
        assume "k < i" with push(5) a show False by auto
      next
        assume "i < k" with a push(4) show False
          by (auto simp: first_with_id_def) (metis option.inject)
      qed
    qed
    then have "(if first_with_id gs k then replies_to (id_grp (gs ! k)) [m] else []) = []"
      by (auto simp: replies_to_def)
    with push(1) False assms show ?thesis by simp
  qed
qed

lemma length_reducer: "length gs \<le> length (reducer gs m)"
  by (cases gs m rule: reducer_cases) auto

lemma reducer_id_grp: "k < length gs \<Longrightarrow> id_grp (reducer gs m ! k) = id_grp (gs ! k)"
  by (simp add: reducer_nth)

lemma reducer_first_with_id:
  "k < length gs \<Longrightarrow> first_with_id (reducer gs m) k = first_with_id gs k"
  by (simp add: first_with_id_def reducer_id_grp)

subsection \<open>The fold: what happens to a group once it exists\<close>

lemma length_foldl_reducer: "length gs \<le> length (foldl reducer gs ms)"
proof (induction ms arbitrary: gs)
  case Nil
  then show ?case by simp
next
  case (Cons m ms)
  have "length gs \<le> length (reducer gs m)" by (rule length_reducer)
  also have "\<dots> \<le> length (foldl reducer (reducer gs m) ms)" by (rule Cons.IH)
  finally show ?case by simp
qed

lemma replies_to_snoc:
  "replies_to p (xs @ [x]) =
     replies_to p xs @ (if truthy (parentId x) \<and> parentId x = Some p then [x] else [])"
  by (auto simp: replies_to_def)

lemma replies_to_nonempty:
  "p \<noteq> [] \<Longrightarrow> replies_to p ms = filter (\<lambda>m. parentId m = Some p) ms"
  by (auto simp: replies_to_def truthy_def intro: filter_cong)

lemma foldl_reducer_nth:
  assumes "k < length gs"
  shows "foldl reducer gs ms ! k =
    (gs ! k)\<lparr>replies := replies (gs ! k) @
       (if first_with_id gs k then replies_to (id_grp (gs ! k)) ms else [])\<rparr>"
  using assms
proof (induction ms arbitrary: gs)
  case Nil
  then show ?case by (simp add: replies_to_def)
next
  case (Cons m ms)
  have k: "k < length (reducer gs m)"
    using Cons.prems length_reducer [of gs m] by arith
  have "replies_to p (m # ms) = replies_to p [m] @ replies_to p ms" for p
    by (auto simp: replies_to_def)
  then show ?case
    using Cons.IH [OF k] Cons.prems
    by (simp add: reducer_first_with_id reducer_id_grp) (simp add: reducer_nth)
qed

lemma foldl_reducer_id_grp:
  "k < length gs \<Longrightarrow> id_grp (foldl reducer gs ms ! k) = id_grp (gs ! k)"
  by (simp add: foldl_reducer_nth)

lemma foldl_reducer_first_with_id:
  assumes "k < length gs"
  shows "first_with_id (foldl reducer gs ms) k = first_with_id gs k"
proof -
  have "id_grp (foldl reducer gs ms ! j) = id_grp (gs ! j)" if "j \<le> k" for j
    using that assms by (simp add: foldl_reducer_id_grp)
  then show ?thesis by (simp add: first_with_id_def)
qed

lemma foldl_reducer_new_group:
  assumes "length gs \<le> j" and "j < length (foldl reducer gs ms)"
    and "\<not> first_with_id (foldl reducer gs ms) j"
  shows "replies (foldl reducer gs ms ! j) = []"
  using assms
proof (induction ms arbitrary: gs)
  case Nil
  then show ?case by simp
next
  case (Cons m ms)
  let ?gs' = "reducer gs m"
  show ?case
  proof (cases "j < length ?gs'")
    case False
    with Cons.IH [of ?gs'] Cons.prems show ?thesis by simp
  next
    case True
    with Cons.prems(1) have new: "?gs' = gs @ [new_group m]" and j: "j = length gs"
      by (cases gs m rule: reducer_cases; simp)+
    have "\<not> first_with_id ?gs' j"
      using Cons.prems(3) foldl_reducer_first_with_id [OF True, of ms] by simp
    with foldl_reducer_nth [OF True, of ms] show ?thesis
      by (simp add: new j new_group_def)
  qed
qed

subsection \<open>No message is lost or duplicated\<close>

lemma flatten_simps [simp]:
  "flatten [] = []"
  "flatten (g # gs) = message g # replies g @ flatten gs"
  "flatten (gs @ hs) = flatten gs @ flatten hs"
  by (simp_all add: flatten_def)

lemma set_flatten: "set (flatten gs) = message ` set gs \<union> (\<Union>g\<in>set gs. set (replies g))"
  by (induction gs) auto

lemma mset_flatten_update:
  assumes "i < length gs"
  shows "mset (flatten (gs[i := (gs ! i)\<lparr>replies := replies (gs ! i) @ [m]\<rparr>])) =
         mset (flatten gs) + {#m#}"
proof -
  have "gs = take i gs @ gs ! i # drop (Suc i) gs"
    using assms by (rule id_take_nth_drop)
  then have "mset (flatten gs) =
      mset (flatten (take i gs)) + mset (flatten (gs ! i # drop (Suc i) gs))"
    by (metis flatten_simps(3) mset_append)
  moreover have "gs[i := (gs ! i)\<lparr>replies := replies (gs ! i) @ [m]\<rparr>] =
      take i gs @ (gs ! i)\<lparr>replies := replies (gs ! i) @ [m]\<rparr> # drop (Suc i) gs"
    using assms by (rule upd_conv_take_nth_drop)
  ultimately show ?thesis by simp
qed

lemma mset_flatten_reducer: "mset (flatten (reducer gs m)) = mset (flatten gs) + {#m#}"
proof (cases gs m rule: reducer_cases)
  case new
  then show ?thesis by (simp add: new_group_def)
next
  case (push i)
  then show ?thesis by (simp add: mset_flatten_update)
qed

lemma mset_flatten_foldl: "mset (flatten (foldl reducer gs ms)) = mset (flatten gs) + mset ms"
  by (induction ms arbitrary: gs) (simp_all add: mset_flatten_reducer)

lemma mset_flatten_messageGroups: "mset (flatten (messageGroups msgs)) = mset msgs"
  by (simp add: messageGroups_def mset_flatten_foldl)

lemma mset_flatten_split:
  "mset (flatten gs) = mset (map message gs) + mset (concat (map replies gs))"
  by (induction gs) simp_all

lemma distinct_flatten_anchor_not_reply:
  assumes "distinct (flatten gs)" "g \<in> set gs" "h \<in> set gs"
  shows "message h \<notin> set (replies g)"
  using assms
proof (induction gs)
  case Nil
  then show ?case by simp
next
  case (Cons a gs)
  have in_flat: "message k \<in> set (flatten gs)" "set (replies k) \<subseteq> set (flatten gs)"
    if "k \<in> set gs" for k
    using that by (auto simp: flatten_def)
  from Cons show ?case
    using in_flat by (cases "g = a"; cases "h = a") auto
qed

subsection \<open>Replies carry the id of their group\<close>

lemma group_ok_reducer:
  assumes "\<forall>g\<in>set gs. group_ok g"
  shows "\<forall>g\<in>set (reducer gs m). group_ok g"
proof (cases gs m rule: reducer_cases)
  case new
  have "group_ok (new_group m)" by (simp add: group_ok_def new_group_def)
  with assms new(1) show ?thesis by auto
next
  case (push i)
  have "group_ok (gs ! i)" using assms push(3) by simp
  then have "group_ok ((gs ! i)\<lparr>replies := replies (gs ! i) @ [m]\<rparr>)"
    using push(2,4) by (auto simp: group_ok_def)
  with assms push(1) show ?thesis
    by (auto dest!: set_update_subset_insert [THEN subsetD])
qed

lemma group_ok_foldl:
  "\<forall>g\<in>set gs. group_ok g \<Longrightarrow> \<forall>g\<in>set (foldl reducer gs ms). group_ok g"
proof (induction ms arbitrary: gs)
  case Nil
  then show ?case by simp
next
  case (Cons m ms)
  from Cons.prems have "\<forall>g\<in>set (reducer gs m). group_ok g" by (rule group_ok_reducer)
  then have "\<forall>g\<in>set (foldl reducer (reducer gs m) ms). group_ok g" by (rule Cons.IH)
  then show ?case by simp
qed

lemma group_ok_messageGroups: "g \<in> set (messageGroups msgs) \<Longrightarrow> group_ok g"
  using group_ok_foldl [of "[]" msgs] by (simp add: messageGroups_def)

lemma group_ok_reply:
  "group_ok g \<Longrightarrow> r \<in> set (replies g) \<Longrightarrow> parentId r = Some (id_msg (message g))"
  unfolding group_ok_def by simp

subsection \<open>The closed form of the groups of a well-formed store\<close>

lemma parents_resolve_snoc:
  assumes "parents_resolve (xs @ [x])"
  shows "parents_resolve xs"
    and "truthy (parentId x) \<Longrightarrow> \<exists>a\<in>set (anchors xs). parentId x = Some (id_msg a)"
proof -
  have all: "truthy (parentId ((xs @ [x]) ! i)) \<Longrightarrow>
      \<exists>j<i. \<not> truthy (parentId ((xs @ [x]) ! j)) \<and>
        parentId ((xs @ [x]) ! i) = Some (id_msg ((xs @ [x]) ! j))"
    if "i < Suc (length xs)" for i
    using assms that unfolding parents_resolve_def by simp
  show "parents_resolve xs"
    unfolding parents_resolve_def
  proof (intro allI impI)
    fix i assume i: "i < length xs" and t: "truthy (parentId (xs ! i))"
    then have "truthy (parentId ((xs @ [x]) ! i))" by (simp add: nth_append)
    with all [of i] i obtain j where j: "j < i" "\<not> truthy (parentId ((xs @ [x]) ! j))"
        "parentId ((xs @ [x]) ! i) = Some (id_msg ((xs @ [x]) ! j))"
      by auto
    with i have "\<not> truthy (parentId (xs ! j)) \<and> parentId (xs ! i) = Some (id_msg (xs ! j))"
      by (simp add: nth_append)
    with j(1) show "\<exists>j<i. \<not> truthy (parentId (xs ! j)) \<and> parentId (xs ! i) = Some (id_msg (xs ! j))"
      by blast
  qed
  show "\<exists>a\<in>set (anchors xs). parentId x = Some (id_msg a)" if t: "truthy (parentId x)"
  proof -
    from t all [of "length xs"] obtain j where j: "j < length xs"
        "\<not> truthy (parentId ((xs @ [x]) ! j))"
        "parentId ((xs @ [x]) ! length xs) = Some (id_msg ((xs @ [x]) ! j))"
      by auto
    then have "\<not> truthy (parentId (xs ! j))" "parentId x = Some (id_msg (xs ! j))"
      by (simp_all add: nth_append)
    moreover from this j(1) have "xs ! j \<in> set (anchors xs)" by (simp add: anchors_def)
    ultimately show ?thesis by blast
  qed
qed

lemma parents_resolve_refs:
  assumes "parents_resolve xs" "m \<in> set xs" "truthy (parentId m)"
  shows "\<exists>a\<in>set xs. parentId m = Some (id_msg a)"
proof -
  from assms(2) obtain i where i: "i < length xs" "xs ! i = m"
    by (auto simp: in_set_conv_nth)
  with assms(1,3) obtain j where "j < i" "parentId m = Some (id_msg (xs ! j))"
    unfolding parents_resolve_def by blast
  with i(1) show ?thesis by (metis nth_mem order.strict_trans)
qed

lemma messageGroups_closed_form:
  assumes "distinct (map id_msg msgs)" and "parents_resolve msgs"
  shows "messageGroups msgs = map (thread_of msgs) (anchors msgs)"
  using assms
proof (induction msgs rule: rev_induct)
  case Nil
  then show ?case by (simp add: messageGroups_def anchors_def)
next
  case (snoc x xs)
  let ?gs = "messageGroups xs"
  have d: "distinct (map id_msg xs)" and fresh: "id_msg x \<notin> id_msg ` set xs"
    using snoc.prems(1) by auto
  have pr: "parents_resolve xs"
    using snoc.prems(2) by (rule parents_resolve_snoc)
  have IH: "?gs = map (thread_of xs) (anchors xs)"
    using snoc.IH d pr by simp
  have resolved: "\<exists>g\<in>set ?gs. Some (id_grp g) = parentId x" if "truthy (parentId x)"
  proof -
    from parents_resolve_snoc(2) [OF snoc.prems(2) that]
    obtain a where "a \<in> set (anchors xs)" "parentId x = Some (id_msg a)" by blast
    then have "thread_of xs a \<in> set ?gs" "Some (id_grp (thread_of xs a)) = parentId x"
      by (auto simp: IH thread_of_def)
    then show ?thesis by blast
  qed
  show ?case
  proof (cases ?gs x rule: reducer_cases)
    case new
    with resolved have nt: "\<not> truthy (parentId x)" by blast
    have "replies_to (id_msg x) xs = []"
    proof (rule ccontr)
      assume "replies_to (id_msg x) xs \<noteq> []"
      then obtain m where m: "m \<in> set xs" "truthy (parentId m)" "parentId m = Some (id_msg x)"
        by (auto simp: replies_to_def filter_empty_conv)
      from parents_resolve_refs [OF pr m(1,2)] m(3) fresh show False by auto
    qed
    with nt have "thread_of (xs @ [x]) x = new_group x"
      by (simp add: thread_of_def new_group_def replies_to_snoc)
    moreover have "thread_of (xs @ [x]) a = thread_of xs a" for a
      using nt by (simp add: thread_of_def replies_to_snoc)
    moreover have "anchors (xs @ [x]) = anchors xs @ [x]"
      using nt by (simp add: anchors_def)
    ultimately show ?thesis
      using new(1) IH by (simp add: messageGroups_snoc)
  next
    case (push i)
    have an: "anchors (xs @ [x]) = anchors xs"
      using push(2) by (simp add: anchors_def)
    have da: "distinct (map id_msg (anchors xs))"
      using d by (simp add: anchors_def distinct_map_filter)
    have i: "i < length (anchors xs)" using push(3) IH by simp
    have pi: "parentId x = Some (id_msg (anchors xs ! i))"
      using push(4) i IH by (simp add: thread_of_def)
    have "?gs[i := (?gs ! i)\<lparr>replies := replies (?gs ! i) @ [x]\<rparr>] =
        map (thread_of (xs @ [x])) (anchors xs)"
    proof (rule nth_equalityI)
      show "length (?gs[i := (?gs ! i)\<lparr>replies := replies (?gs ! i) @ [x]\<rparr>]) =
          length (map (thread_of (xs @ [x])) (anchors xs))"
        using IH by simp
    next
      fix k assume "k < length (?gs[i := (?gs ! i)\<lparr>replies := replies (?gs ! i) @ [x]\<rparr>])"
      then have k: "k < length (anchors xs)" using IH by simp
      show "?gs[i := (?gs ! i)\<lparr>replies := replies (?gs ! i) @ [x]\<rparr>] ! k =
          map (thread_of (xs @ [x])) (anchors xs) ! k"
      proof (cases "k = i")
        case True
        with k pi push(2) show ?thesis
          by (simp add: IH thread_of_def replies_to_snoc)
      next
        case False
        with da k i have "id_msg (anchors xs ! k) \<noteq> id_msg (anchors xs ! i)"
          by (simp add: distinct_conv_nth)
        with False k pi show ?thesis
          by (simp add: IH thread_of_def replies_to_snoc)
      qed
    qed
    with push(1) an show ?thesis by (simp add: messageGroups_snoc)
  qed
qed

section \<open>Claims\<close>

text \<open>
  C1 (as amended): take a sequence of messages with pairwise distinct ids, and read an
  empty-string \<^verbatim>\<open>parentId\<close> as no \<^verbatim>\<open>parentId\<close>, as the reducer's test does. If every message
  with a \<^verbatim>\<open>parentId\<close> refers to the id of an earlier message without one, then the groups are
  exactly one per message without \<^verbatim>\<open>parentId\<close>, in insertion order, and the replies of each
  group are exactly the messages whose \<^verbatim>\<open>parentId\<close> is the anchor's id, in insertion order.
\<close>

theorem group_characterisation:
  assumes "distinct (map id_msg msgs)"
    and "\<forall>i<length msgs. truthy (parentId (msgs ! i)) \<longrightarrow>
           (\<exists>j<i. \<not> truthy (parentId (msgs ! j)) \<and>
              parentId (msgs ! i) = Some (id_msg (msgs ! j)))"
  shows "messageGroups msgs =
    map (\<lambda>a. \<lparr>id_grp = id_msg a, message = a,
               replies = filter (\<lambda>m. truthy (parentId m) \<and> parentId m = Some (id_msg a)) msgs\<rparr>)
      (filter (\<lambda>m. \<not> truthy (parentId m)) msgs)"
proof -
  have "parents_resolve msgs"
    using assms(2) by (simp add: parents_resolve_def)
  with assms(1) have "messageGroups msgs = map (thread_of msgs) (anchors msgs)"
    by (rule messageGroups_closed_form)
  moreover have "thread_of msgs =
      (\<lambda>a. \<lparr>id_grp = id_msg a, message = a,
               replies = filter (\<lambda>m. truthy (parentId m) \<and> parentId m = Some (id_msg a)) msgs\<rparr>)"
    by (rule ext) (simp add: thread_of_def replies_to_def)
  ultimately show ?thesis by (simp add: anchors_def)
qed

text \<open>
  Witness for C1, the example scenario of the specification: messages 1 and 2 without
  \<^verbatim>\<open>parentId\<close>, then message 3 replying to 1.
\<close>

theorem group_characterisation_witness:
  "distinct (map id_msg [msg ''1'' None, msg ''2'' None, msg ''3'' (Some ''1'')]) \<and>
   parents_resolve [msg ''1'' None, msg ''2'' None, msg ''3'' (Some ''1'')] \<and>
   messageGroups [msg ''1'' None, msg ''2'' None, msg ''3'' (Some ''1'')] =
     [\<lparr>id_grp = ''1'', message = msg ''1'' None, replies = [msg ''3'' (Some ''1'')]\<rparr>,
      \<lparr>id_grp = ''2'', message = msg ''2'' None, replies = []\<rparr>]"
proof -
  let ?ex = "[msg ''1'' None, msg ''2'' None, msg ''3'' (Some ''1'')]"
  have d: "distinct (map id_msg ?ex)" by (simp add: msg_def)
  have p: "parents_resolve ?ex"
    by (simp add: parents_resolve_def All_less_Suc Ex_less_Suc truthy_def msg_def)
  from p have q: "\<forall>i<length ?ex. truthy (parentId (?ex ! i)) \<longrightarrow>
      (\<exists>j<i. \<not> truthy (parentId (?ex ! j)) \<and> parentId (?ex ! i) = Some (id_msg (?ex ! j)))"
    unfolding parents_resolve_def .
  from group_characterisation [OF d q] d p show ?thesis
    by (simp add: truthy_def msg_def)
qed

text \<open>
  Counterexample to C1 as stated: the ids are distinct and the second message bears a
  \<^verbatim>\<open>parentId\<close> (the empty string) that is the id of the earlier message, which has none;
  yet the second message starts a group of its own, so there are two groups for one
  message without \<^verbatim>\<open>parentId\<close>, and the first group has no reply.
\<close>

theorem empty_parentId_counterexample:
  "distinct (map id_msg [msg [] None, msg ''2'' (Some [])]) \<and>
   parentId (msg [] None) = None \<and>
   parentId (msg ''2'' (Some [])) = Some (id_msg (msg [] None)) \<and>
   messageGroups [msg [] None, msg ''2'' (Some [])] =
     [\<lparr>id_grp = [], message = msg [] None, replies = []\<rparr>,
      \<lparr>id_grp = ''2'', message = msg ''2'' (Some []), replies = []\<rparr>] \<and>
   messageGroups [msg [] None, msg ''2'' (Some [])] \<noteq>
     [\<lparr>id_grp = [], message = msg [] None, replies = [msg ''2'' (Some [])]\<rparr>]"
  by (simp add: eval_defs)

text \<open>
  C2: a message whose \<^verbatim>\<open>parentId\<close> is not the id of any group produced from the messages
  before it becomes a new top-level anchor: its group, with no replies, is appended to the
  groups produced so far, and in the final output that group stands at that position,
  after the unchanged anchors of the earlier groups. The function is total: nothing is raised.
\<close>

theorem orphan_becomes_anchor:
  assumes "\<forall>g\<in>set (messageGroups pre). Some (id_grp g) \<noteq> parentId m"
  shows "messageGroups (pre @ [m]) =
      messageGroups pre @ [\<lparr>id_grp = id_msg m, message = m, replies = []\<rparr>] \<and>
    length (messageGroups pre) < length (messageGroups (pre @ m # post)) \<and>
    id_grp (messageGroups (pre @ m # post) ! length (messageGroups pre)) = id_msg m \<and>
    message (messageGroups (pre @ m # post) ! length (messageGroups pre)) = m \<and>
    map message (take (length (messageGroups pre)) (messageGroups (pre @ m # post))) =
      map message (messageGroups pre)"
proof -
  let ?gs = "messageGroups pre"
  let ?gs' = "?gs @ [new_group m]"
  let ?G = "messageGroups (pre @ m # post)"
  have r: "reducer ?gs m = ?gs'" using assms by (simp add: reducer_new)
  then have G: "?G = foldl reducer ?gs' post" by (simp add: messageGroups_Cons_after)
  have len: "length ?gs' \<le> length ?G" unfolding G by (rule length_foldl_reducer)
  have nth: "id_grp (?G ! k) = id_grp (?gs' ! k) \<and> message (?G ! k) = message (?gs' ! k)"
    if "k < length ?gs'" for k
    unfolding G using foldl_reducer_nth [OF that, of post] by simp
  have "map message (take (length ?gs) ?G) = map message ?gs"
  proof (rule nth_equalityI)
    show "length (map message (take (length ?gs) ?G)) = length (map message ?gs)"
      using len by simp
  next
    fix k assume "k < length (map message (take (length ?gs) ?G))"
    then have k: "k < length ?gs" by simp
    with nth [of k] len show "map message (take (length ?gs) ?G) ! k = map message ?gs ! k"
      by (simp add: nth_append)
  qed
  moreover have "messageGroups (pre @ [m]) = ?gs @ [\<lparr>id_grp = id_msg m, message = m, replies = []\<rparr>]"
    using r by (simp add: messageGroups_snoc new_group_def)
  moreover have "id_grp (?G ! length ?gs) = id_msg m \<and> message (?G ! length ?gs) = m"
    using nth [of "length ?gs"] by (simp add: new_group_def)
  ultimately show ?thesis using len by simp
qed

text \<open>Witness for C2: message 2 refers to the unknown id 9, after the anchor 1.\<close>

theorem orphan_becomes_anchor_witness:
  "map id_grp (messageGroups [msg ''1'' None]) = [''1''] \<and>
   parentId (msg ''2'' (Some ''9'')) = Some ''9'' \<and>
   messageGroups ([msg ''1'' None] @ [msg ''2'' (Some ''9'')]) =
     messageGroups [msg ''1'' None] @
       [\<lparr>id_grp = ''2'', message = msg ''2'' (Some ''9''), replies = []\<rparr>] \<and>
   message (messageGroups ([msg ''1'' None] @ msg ''2'' (Some ''9'') # [msg ''3'' (Some ''1'')]) ! 1) =
     msg ''2'' (Some ''9'')"
proof -
  have g: "messageGroups [msg ''1'' None] =
      [\<lparr>id_grp = ''1'', message = msg ''1'' None, replies = []\<rparr>]"
    by (simp add: eval_defs)
  have h: "\<forall>g\<in>set (messageGroups [msg ''1'' None]). Some (id_grp g) \<noteq> parentId (msg ''2'' (Some ''9''))"
    by (simp add: g) (simp add: msg_def)
  from orphan_becomes_anchor [OF h, of "[msg ''3'' (Some ''1'')]"] show ?thesis
    by (simp add: g) (simp add: msg_def)
qed

text \<open>
  C3: every message of the input appears exactly once in the output, as an anchor or as a
  reply: the anchors and the replies of all groups together are the input, as multisets.
\<close>

theorem every_message_once:
  "mset (map message (messageGroups msgs)) + mset (concat (map replies (messageGroups msgs))) =
   mset msgs"
  using mset_flatten_messageGroups [of msgs] by (simp add: mset_flatten_split)

text \<open>
  C4 (as amended): the insertion of the source never fails. It appends the message to the
  end of the store whether or not the id is already there; when the id is new this is what
  the specified operation returns, and when the id is already there the specified operation
  fails with \<open>DuplicateIdError\<close> while the source's store now holds the id twice.
\<close>

theorem append_never_rejects:
  "append_msg s m = s @ [m] \<and>
   (if id_msg m \<in> set (map id_msg s)
    then append_spec s m = Inl DuplicateIdError \<and> \<not> distinct (map id_msg (append_msg s m))
    else append_spec s m = Inr (append_msg s m))"
  by (simp add: append_msg_def append_spec_def)

text \<open>
  Counterexample to C4 as stated: the id 1 is already in the store; the specified
  operation fails, the source's insertion returns the store with the message at its end.
\<close>

theorem append_duplicate_counterexample:
  "id_msg (msg ''1'' (Some ''0'')) \<in> set (map id_msg [msg ''0'' None, msg ''1'' None]) \<and>
   append_spec [msg ''0'' None, msg ''1'' None] (msg ''1'' (Some ''0'')) = Inl DuplicateIdError \<and>
   append_msg [msg ''0'' None, msg ''1'' None] (msg ''1'' (Some ''0'')) =
     [msg ''0'' None, msg ''1'' None, msg ''1'' (Some ''0'')]"
  by (simp add: append_msg_def append_spec_def msg_def)

text \<open>
  C5 (as amended): every reply of a group has the id of the group's anchor as its
  \<^verbatim>\<open>parentId\<close>; and when the ids of the store are pairwise distinct, a message whose
  \<^verbatim>\<open>parentId\<close> is the id of a message placed as a reply is the anchor of a group and is in
  no group's replies.
\<close>

theorem one_level_deep:
  assumes "g \<in> set (messageGroups msgs)" and "r \<in> set (replies g)"
  shows "parentId r = Some (id_msg (message g)) \<and>
    (distinct (map id_msg msgs) \<longrightarrow>
      (\<forall>m\<in>set msgs. parentId m = Some (id_msg r) \<longrightarrow>
         m \<in> set (map message (messageGroups msgs)) \<and>
         (\<forall>h\<in>set (messageGroups msgs). m \<notin> set (replies h))))"
proof -
  let ?G = "messageGroups msgs"
  have part1: "parentId r = Some (id_msg (message g))"
    using group_ok_messageGroups [OF assms(1)] assms(2) by (rule group_ok_reply)
  have part2: "m \<in> set (map message ?G) \<and> (\<forall>h\<in>set ?G. m \<notin> set (replies h))"
    if d: "distinct (map id_msg msgs)" and m: "m \<in> set msgs"
      and pm: "parentId m = Some (id_msg r)" for m
  proof -
  have ms: "mset (flatten ?G) = mset msgs" by (rule mset_flatten_messageGroups)
  then have sf: "set (flatten ?G) = set msgs" by (rule mset_eq_setD)
  from d have "distinct msgs" by (simp add: distinct_map)
  with mset_eq_imp_distinct_iff [OF ms] have df: "distinct (flatten ?G)" by simp
  from d have inj: "inj_on id_msg (set msgs)" by (simp add: distinct_map)
  have "r \<in> set (flatten ?G)" using assms unfolding set_flatten by blast
  then have r_in: "r \<in> set msgs" using sf by simp
  have not_reply: "m \<notin> set (replies h)" if h: "h \<in> set ?G" for h
  proof
    assume "m \<in> set (replies h)"
    with group_ok_messageGroups [OF h] have "parentId m = Some (id_msg (message h))"
      by (rule group_ok_reply)
    with pm have eq: "id_msg (message h) = id_msg r" by simp
    have "message h \<in> set (flatten ?G)" using h unfolding set_flatten by blast
    then have "message h \<in> set msgs" using sf by simp
    with inj eq have "message h = r" using r_in by (rule inj_onD)
    with distinct_flatten_anchor_not_reply [OF df assms(1) h] assms(2) show False by simp
  qed
  from m sf have "m \<in> set (flatten ?G)" by simp
  then have "m \<in> message ` set ?G" using not_reply unfolding set_flatten by blast
  then have "m \<in> set (map message ?G)" by simp
  moreover have "\<forall>h\<in>set ?G. m \<notin> set (replies h)" using not_reply by blast
  ultimately show ?thesis by blast
  qed
  from part1 part2 show ?thesis by blast
qed

text \<open>Witness for C5: message 2 replies to 1, and message 3 refers to the reply 2.\<close>

theorem one_level_deep_witness:
  "messageGroups [msg ''1'' None, msg ''2'' (Some ''1''), msg ''3'' (Some ''2'')] =
     [\<lparr>id_grp = ''1'', message = msg ''1'' None, replies = [msg ''2'' (Some ''1'')]\<rparr>,
      \<lparr>id_grp = ''3'', message = msg ''3'' (Some ''2''), replies = []\<rparr>] \<and>
   distinct (map id_msg [msg ''1'' None, msg ''2'' (Some ''1''), msg ''3'' (Some ''2'')]) \<and>
   parentId (msg ''2'' (Some ''1'')) = Some (id_msg (msg ''1'' None)) \<and>
   msg ''3'' (Some ''2'') \<in>
     set (map message (messageGroups [msg ''1'' None, msg ''2'' (Some ''1''), msg ''3'' (Some ''2'')]))"
proof -
  let ?ms = "[msg ''1'' None, msg ''2'' (Some ''1''), msg ''3'' (Some ''2'')]"
  let ?g = "\<lparr>id_grp = ''1'', message = msg ''1'' None, replies = [msg ''2'' (Some ''1'')]\<rparr>"
  have G: "messageGroups ?ms =
      [?g, \<lparr>id_grp = ''3'', message = msg ''3'' (Some ''2''), replies = []\<rparr>]"
    by (simp add: eval_defs)
  have g: "?g \<in> set (messageGroups ?ms)" by (simp add: G)
  have r: "msg ''2'' (Some ''1'') \<in> set (replies ?g)" by simp
  have d: "distinct (map id_msg ?ms)" by (simp add: msg_def)
  from one_level_deep [OF g r] d
  have "parentId (msg ''2'' (Some ''1'')) = Some (id_msg (message ?g))"
    and "\<forall>m\<in>set ?ms. parentId m = Some (id_msg (msg ''2'' (Some ''1''))) \<longrightarrow>
         m \<in> set (map message (messageGroups ?ms))"
    by blast+
  then show ?thesis using G d by (simp add: msg_def)
qed

text \<open>
  Counterexample to C5 as stated: the reply to message 1 has the id 2, as the second
  anchor has. Message 3 refers to the id 2, the id of a message placed as a reply, and
  does not become an anchor: it is a reply of the second group.
\<close>

theorem shared_id_reply_counterexample:
  "messageGroups
     [msg ''1'' None, msg ''2'' None, msg ''2'' (Some ''1''), msg ''3'' (Some ''2'')] =
     [\<lparr>id_grp = ''1'', message = msg ''1'' None, replies = [msg ''2'' (Some ''1'')]\<rparr>,
      \<lparr>id_grp = ''2'', message = msg ''2'' None, replies = [msg ''3'' (Some ''2'')]\<rparr>] \<and>
   parentId (msg ''3'' (Some ''2'')) = Some (id_msg (msg ''2'' (Some ''1''))) \<and>
   msg ''3'' (Some ''2'') \<notin> set (map message (messageGroups
     [msg ''1'' None, msg ''2'' None, msg ''2'' (Some ''1''), msg ''3'' (Some ''2'')]))"
  by (simp add: eval_defs)

text \<open>
  C6: grouping twice with no insertion in between gives equal results: the first call
  leaves the store as it was, and the second call computes the same groups from it.
\<close>

theorem group_idempotent:
  "snd (group_op s) = s \<and> fst (group_op (snd (group_op s))) = fst (group_op s)"
  by (simp add: group_op_def)

text \<open>
  C7 (as amended): for anchors A1 and A2 without \<^verbatim>\<open>parentId\<close>, where the id of A1 is not the
  empty string, appending a reply R1 whose \<^verbatim>\<open>parentId\<close> is the id of A1 gives the groups
  A1 with replies R1, then A2 with no replies: the group of A2 keeps its position and
  its contents.
\<close>

theorem reply_changes_only_its_anchor:
  assumes "parentId A1 = None" and "parentId A2 = None"
    and "parentId R1 = Some (id_msg A1)" and "id_msg A1 \<noteq> []"
  shows "messageGroups [A1, A2] =
      [\<lparr>id_grp = id_msg A1, message = A1, replies = []\<rparr>,
       \<lparr>id_grp = id_msg A2, message = A2, replies = []\<rparr>] \<and>
    messageGroups (append_msg [A1, A2] R1) =
      [\<lparr>id_grp = id_msg A1, message = A1, replies = [R1]\<rparr>,
       \<lparr>id_grp = id_msg A2, message = A2, replies = []\<rparr>]"
  using assms by (simp add: messageGroups_def reducer_def truthy_def new_group_def append_msg_def)

text \<open>Witness for C7: anchors 1 and 2, and message 3 replying to 1.\<close>

theorem reply_changes_only_its_anchor_witness:
  "messageGroups (append_msg [msg ''1'' None, msg ''2'' None] (msg ''3'' (Some ''1''))) =
      [\<lparr>id_grp = ''1'', message = msg ''1'' None, replies = [msg ''3'' (Some ''1'')]\<rparr>,
       \<lparr>id_grp = ''2'', message = msg ''2'' None, replies = []\<rparr>]"
  using reply_changes_only_its_anchor [of "msg ''1'' None" "msg ''2'' None" "msg ''3'' (Some ''1'')"]
  by (simp add: msg_def)

text \<open>
  Counterexample to C7 as stated: the id of A1 is the empty string, the \<^verbatim>\<open>parentId\<close> of R1 is
  that id, and R1 becomes a third group instead of a reply of A1.
\<close>

theorem reply_to_empty_id_counterexample:
  "parentId (msg [] None) = None \<and> parentId (msg ''2'' None) = None \<and>
   parentId (msg ''3'' (Some [])) = Some (id_msg (msg [] None)) \<and>
   messageGroups (append_msg [msg [] None, msg ''2'' None] (msg ''3'' (Some []))) =
     [\<lparr>id_grp = [], message = msg [] None, replies = []\<rparr>,
      \<lparr>id_grp = ''2'', message = msg ''2'' None, replies = []\<rparr>,
      \<lparr>id_grp = ''3'', message = msg ''3'' (Some []), replies = []\<rparr>] \<and>
   messageGroups (append_msg [msg [] None, msg ''2'' None] (msg ''3'' (Some []))) \<noteq>
     [\<lparr>id_grp = [], message = msg [] None, replies = [msg ''3'' (Some [])]\<rparr>,
      \<lparr>id_grp = ''2'', message = msg ''2'' None, replies = []\<rparr>]"
  by (simp add: eval_defs append_msg_def)

text \<open>
  C8: grouping an empty message store gives the empty sequence of groups; the function
  is total, so nothing is raised.
\<close>

theorem group_empty: "fst (group_op []) = [] \<and> messageGroups [] = []"
  by (simp add: group_op_def messageGroups_def)

text \<open>
  C9 (as amended): let r have a \<^verbatim>\<open>parentId\<close> that is the id of no group produced from the
  messages before it, so that r starts its own group. If the id of r is not the empty
  string and no group produced before r has the id of r, then the replies of r's group are
  exactly the later messages whose \<^verbatim>\<open>parentId\<close> is the id of r, in insertion order.
\<close>

theorem promoted_orphan_collects_replies:
  assumes "parentId r = Some p"
    and "\<forall>g\<in>set (messageGroups pre). id_grp g \<noteq> p"
    and "\<forall>g\<in>set (messageGroups pre). id_grp g \<noteq> id_msg r"
    and "id_msg r \<noteq> []"
  shows "length (messageGroups pre) < length (messageGroups (pre @ r # post)) \<and>
    messageGroups (pre @ r # post) ! length (messageGroups pre) =
      \<lparr>id_grp = id_msg r, message = r,
       replies = filter (\<lambda>m. parentId m = Some (id_msg r)) post\<rparr>"
proof -
  let ?gs = "messageGroups pre"
  let ?gs' = "?gs @ [new_group r]"
  let ?G = "messageGroups (pre @ r # post)"
  have "reducer ?gs r = ?gs'" using assms(1,2) by (auto simp: reducer_new)
  then have G: "?G = foldl reducer ?gs' post" by (simp add: messageGroups_Cons_after)
  have len: "length ?gs' \<le> length ?G" unfolding G by (rule length_foldl_reducer)
  have first: "first_with_id ?gs' (length ?gs)"
    using assms(3) by (simp add: first_with_id_def nth_append new_group_def)
  have "?G ! length ?gs = (new_group r)\<lparr>replies := replies_to (id_msg r) post\<rparr>"
    unfolding G using foldl_reducer_nth [of "length ?gs" ?gs' post] first
    by (simp add: new_group_def)
  with len assms(4) show ?thesis by (simp add: new_group_def replies_to_nonempty)
qed

text \<open>Witness for C9: message 2 refers to the unknown id 9; messages 3 and 5 reply to 2.\<close>

theorem promoted_orphan_collects_replies_witness:
  "map id_grp (messageGroups [msg ''1'' None]) = [''1''] \<and>
   messageGroups ([msg ''1'' None] @ msg ''2'' (Some ''9'') #
       [msg ''3'' (Some ''2''), msg ''4'' None, msg ''5'' (Some ''2'')]) ! 1 =
     \<lparr>id_grp = ''2'', message = msg ''2'' (Some ''9''),
      replies = [msg ''3'' (Some ''2''), msg ''5'' (Some ''2'')]\<rparr>"
proof -
  have g: "messageGroups [msg ''1'' None] =
      [\<lparr>id_grp = ''1'', message = msg ''1'' None, replies = []\<rparr>]"
    by (simp add: eval_defs)
  have h1: "parentId (msg ''2'' (Some ''9'')) = Some ''9''" by (simp add: msg_def)
  have h2: "\<forall>g\<in>set (messageGroups [msg ''1'' None]). id_grp g \<noteq> ''9''" by (simp add: g)
  have h3: "\<forall>g\<in>set (messageGroups [msg ''1'' None]). id_grp g \<noteq> id_msg (msg ''2'' (Some ''9''))"
    by (simp add: g) (simp add: msg_def)
  have h4: "id_msg (msg ''2'' (Some ''9'')) \<noteq> []" by (simp add: msg_def)
  from promoted_orphan_collects_replies [OF h1 h2 h3 h4,
      of "[msg ''3'' (Some ''2''), msg ''4'' None, msg ''5'' (Some ''2'')]"]
  show ?thesis by (simp add: g) (simp add: msg_def)
qed

text \<open>
  Counterexample to C9 as stated. First input: the promoted message has the id 1 of an
  earlier anchor, and the later message with \<^verbatim>\<open>parentId\<close> 1 goes to that earlier group.
  Second input: the promoted message has the empty id, and the later message whose
  \<^verbatim>\<open>parentId\<close> is the empty string starts a group of its own.
\<close>

theorem promoted_orphan_counterexample:
  "messageGroups [msg ''1'' None, msg ''1'' (Some ''9''), msg ''3'' (Some ''1'')] =
     [\<lparr>id_grp = ''1'', message = msg ''1'' None, replies = [msg ''3'' (Some ''1'')]\<rparr>,
      \<lparr>id_grp = ''1'', message = msg ''1'' (Some ''9''), replies = []\<rparr>] \<and>
   messageGroups [msg [] (Some ''9''), msg ''3'' (Some [])] =
     [\<lparr>id_grp = [], message = msg [] (Some ''9''), replies = []\<rparr>,
      \<lparr>id_grp = ''3'', message = msg ''3'' (Some []), replies = []\<rparr>]"
  by (simp add: eval_defs)

text \<open>
  C10 (as amended): let two messages without \<^verbatim>\<open>parentId\<close> share an id that is not the empty
  string. Then each of them has its own group, and the second one's group has no replies.
  Every later message whose \<^verbatim>\<open>parentId\<close> is that id is attached to the earliest group that
  has that id, and to no other group with that id: the replies of that group are the ones
  it had, followed by exactly those later messages in insertion order, and every other
  group with that id keeps the replies it had, or has none. The earliest group with that
  id is the first message's own group exactly when no group produced before it has that id
  (no earlier message promoted to anchor, and no earlier duplicate).
\<close>

theorem duplicate_anchor_ids_first_match:
  assumes "parentId a1 = None" and "parentId a2 = None"
    and "id_msg a2 = id_msg a1" and "id_msg a1 \<noteq> []"
  shows "\<exists>k\<le>length (messageGroups pre).
    find_pos (\<lambda>g. id_grp g = id_msg a1) (messageGroups (pre @ a1 # mid @ a2 # post)) = Some k \<and>
    (k = length (messageGroups pre) \<longleftrightarrow>
       (\<forall>g\<in>set (messageGroups pre). id_grp g \<noteq> id_msg a1)) \<and>
    length (messageGroups pre) < length (messageGroups (pre @ a1 # mid)) \<and>
    length (messageGroups (pre @ a1 # mid)) < length (messageGroups (pre @ a1 # mid @ a2 # post)) \<and>
    message (messageGroups (pre @ a1 # mid @ a2 # post) ! length (messageGroups pre)) = a1 \<and>
    messageGroups (pre @ a1 # mid @ a2 # post) ! length (messageGroups (pre @ a1 # mid)) =
      \<lparr>id_grp = id_msg a2, message = a2, replies = []\<rparr> \<and>
    replies (messageGroups (pre @ a1 # mid @ a2 # post) ! k) =
      (if k < length (messageGroups pre) then replies (messageGroups pre ! k) else []) @
      filter (\<lambda>m. parentId m = Some (id_msg a1)) (mid @ post) \<and>
    (\<forall>j<length (messageGroups (pre @ a1 # mid @ a2 # post)).
       j \<noteq> k \<and> id_grp (messageGroups (pre @ a1 # mid @ a2 # post) ! j) = id_msg a1 \<longrightarrow>
       replies (messageGroups (pre @ a1 # mid @ a2 # post) ! j) =
         (if j < length (messageGroups pre) then replies (messageGroups pre ! j) else []))"
proof -
  let ?p = "id_msg a1"
  let ?gs0 = "messageGroups pre"
  let ?gs1 = "?gs0 @ [new_group a1]"
  let ?gs2 = "messageGroups (pre @ a1 # mid)"
  let ?gs3 = "?gs2 @ [new_group a2]"
  let ?R = "mid @ a2 # post"
  let ?G = "messageGroups (pre @ a1 # mid @ a2 # post)"
  let ?F = "filter (\<lambda>m. parentId m = Some ?p) (mid @ post)"
  let ?k1 = "length ?gs0" and ?k2 = "length ?gs2"
  have r1: "reducer ?gs0 a1 = ?gs1" using assms(1) by (simp add: reducer_new truthy_def)
  have gs2: "?gs2 = foldl reducer ?gs1 mid" using r1 by (simp add: messageGroups_Cons_after)
  have G1: "?G = foldl reducer ?gs1 ?R"
    using r1 by (simp add: messageGroups_Cons_after)
  have "reducer ?gs2 a2 = ?gs3" using assms(2) by (simp add: reducer_new truthy_def)
  then have G3: "?G = foldl reducer ?gs3 post"
    using messageGroups_Cons_after [of "pre @ a1 # mid" a2 post] by simp
  have k12: "?k1 < ?k2" using length_foldl_reducer [of ?gs1 mid] by (simp add: gs2)
  have len3: "length ?gs3 \<le> length ?G" unfolding G3 by (rule length_foldl_reducer)
  have len1: "length ?gs1 \<le> length ?G" unfolding G1 by (rule length_foldl_reducer)
  have F: "replies_to ?p ?R = ?F"
    using assms(2,4) by (simp add: replies_to_nonempty)
  have nth1: "?G ! j = (?gs1 ! j)\<lparr>replies := replies (?gs1 ! j) @
       (if first_with_id ?gs1 j then replies_to (id_grp (?gs1 ! j)) ?R else [])\<rparr>"
    if "j < length ?gs1" for j
    unfolding G1 using that by (rule foldl_reducer_nth)
  have id1: "id_grp (?G ! j) = id_grp (?gs1 ! j)" if "j < length ?gs1" for j
    using nth1 [OF that] by simp
  have fw1: "first_with_id ?G j = first_with_id ?gs1 j" if "j < length ?gs1" for j
    unfolding G1 using that by (rule foldl_reducer_first_with_id)
  have idk1: "id_grp (?G ! ?k1) = ?p" using id1 [of ?k1] by (simp add: new_group_def)
  have m1: "message (?G ! ?k1) = a1" using nth1 [of ?k1] by (simp add: new_group_def)
  have "id_grp (?gs2 ! ?k1) = ?p"
    unfolding gs2 using foldl_reducer_nth [of ?k1 ?gs1 mid] by (simp add: new_group_def)
  then have "\<not> first_with_id ?gs3 ?k2"
    using k12 assms(3) by (auto simp: first_with_id_def nth_append new_group_def)
  then have at2: "?G ! ?k2 = new_group a2"
    unfolding G3 using foldl_reducer_nth [of ?k2 ?gs3 post] by (simp add: new_group_def)
  have "?G ! ?k1 \<in> set ?G" using len1 by simp
  with idk1 have "find_pos (\<lambda>g. id_grp g = ?p) ?G \<noteq> None"
    by (auto simp: find_pos_None)
  then obtain k where fk: "find_pos (\<lambda>g. id_grp g = ?p) ?G = Some k" by blast
  then have k: "k < length ?G" "id_grp (?G ! k) = ?p" "\<forall>j<k. id_grp (?G ! j) \<noteq> ?p"
    by (simp_all add: find_pos_Some)
  have kk1: "k \<le> ?k1"
  proof (rule ccontr)
    assume "\<not> k \<le> ?k1"
    then have "?k1 < k" by simp
    with k(3) idk1 show False by blast
  qed
  then have kl: "k < length ?gs1" by simp
  have "first_with_id ?G k" using k(2,3) by (simp add: first_with_id_def)
  then have first: "first_with_id ?gs1 k" using fw1 [OF kl] by simp
  have "id_grp (?gs1 ! k) = ?p" using id1 [OF kl] k(2) by simp
  with nth1 [OF kl] first F have "replies (?G ! k) = replies (?gs1 ! k) @ ?F" by simp
  moreover have "replies (?gs1 ! k) = (if k < ?k1 then replies (?gs0 ! k) else [])"
    using kk1 by (auto simp: nth_append new_group_def)
  ultimately have atk: "replies (?G ! k) = (if k < ?k1 then replies (?gs0 ! k) else []) @ ?F"
    by simp
  have others: "replies (?G ! j) = (if j < ?k1 then replies (?gs0 ! j) else [])"
    if j: "j < length ?G" "j \<noteq> k" "id_grp (?G ! j) = ?p" for j
  proof -
    have "k < j" using j(2,3) k(3) by (metis nat_neq_iff)
    with k(2) j(3) have nf: "\<not> first_with_id ?G j" by (auto simp: first_with_id_def)
    show ?thesis
    proof (cases "j < length ?gs1")
      case True
      with nf fw1 [OF True] nth1 [OF True] have "?G ! j = ?gs1 ! j" by simp
      with True show ?thesis by (auto simp: nth_append new_group_def)
    next
      case False
      then have "replies (?G ! j) = []"
        unfolding G1 using j(1) nf foldl_reducer_new_group [of ?gs1 j ?R]
        by (simp add: G1)
      with False show ?thesis by simp
    qed
  qed
  have iff: "k = ?k1 \<longleftrightarrow> (\<forall>g\<in>set ?gs0. id_grp g \<noteq> ?p)"
  proof
    assume "k = ?k1"
    show "\<forall>g\<in>set ?gs0. id_grp g \<noteq> ?p"
    proof
      fix g assume "g \<in> set ?gs0"
      then obtain j where j: "j < ?k1" "?gs0 ! j = g" by (auto simp: in_set_conv_nth)
      then have "id_grp (?G ! j) = id_grp g" using id1 [of j] by (simp add: nth_append)
      with k(3) j(1) \<open>k = ?k1\<close> show "id_grp g \<noteq> ?p" by auto
    qed
  next
    assume a: "\<forall>g\<in>set ?gs0. id_grp g \<noteq> ?p"
    show "k = ?k1"
    proof (rule ccontr)
      assume "k \<noteq> ?k1"
      with kk1 have lt: "k < ?k1" by simp
      then have "id_grp (?G ! k) = id_grp (?gs0 ! k)" using id1 [of k] by (simp add: nth_append)
      with a lt k(2) show False by (metis nth_mem)
    qed
  qed
  from kk1 fk iff k12 len3 m1 at2 atk others show ?thesis
    by (intro exI [of _ k]) (simp add: new_group_def)
qed

text \<open>
  Witness for C10: a message with the id 1 and the unknown parent 9 is promoted to anchor;
  then come two anchors with the id 1, with the replies 2 and 3 to that id.
\<close>

theorem duplicate_anchor_ids_first_match_witness:
  "map id_grp (messageGroups [msg ''1'' (Some ''9'')]) = [''1''] \<and>
   find_pos (\<lambda>g. id_grp g = ''1'')
     (messageGroups [msg ''1'' (Some ''9''), msg ''1'' None, msg ''2'' (Some ''1''),
        (msg ''1'' None)\<lparr>role := assistant\<rparr>, msg ''3'' (Some ''1'')]) = Some 0 \<and>
   replies (messageGroups [msg ''1'' (Some ''9''), msg ''1'' None, msg ''2'' (Some ''1''),
        (msg ''1'' None)\<lparr>role := assistant\<rparr>, msg ''3'' (Some ''1'')] ! 0) =
     [msg ''2'' (Some ''1''), msg ''3'' (Some ''1'')] \<and>
   message (messageGroups [msg ''1'' (Some ''9''), msg ''1'' None, msg ''2'' (Some ''1''),
        (msg ''1'' None)\<lparr>role := assistant\<rparr>, msg ''3'' (Some ''1'')] ! 1) = msg ''1'' None \<and>
   messageGroups [msg ''1'' (Some ''9''), msg ''1'' None, msg ''2'' (Some ''1''),
        (msg ''1'' None)\<lparr>role := assistant\<rparr>, msg ''3'' (Some ''1'')] ! 2 =
     \<lparr>id_grp = ''1'', message = (msg ''1'' None)\<lparr>role := assistant\<rparr>, replies = []\<rparr>"
proof -
  let ?o = "msg ''1'' (Some ''9'')"
  let ?a1 = "msg ''1'' None" and ?a2 = "(msg ''1'' None)\<lparr>role := assistant\<rparr>"
  let ?m2 = "msg ''2'' (Some ''1'')" and ?m3 = "msg ''3'' (Some ''1'')"
  let ?G = "messageGroups [?o, ?a1, ?m2, ?a2, ?m3]"
  have h: "parentId ?a1 = None" "parentId ?a2 = None" "id_msg ?a2 = id_msg ?a1" "id_msg ?a1 \<noteq> []"
    by (simp_all add: msg_def)
  have g0: "messageGroups [?o] = [\<lparr>id_grp = ''1'', message = ?o, replies = []\<rparr>]"
    by (simp add: eval_defs)
  have l2: "length (messageGroups [?o, ?a1, ?m2]) = 2"
    by (simp add: eval_defs)
  have ids: "id_msg ?a1 = ''1''" "id_msg ?a2 = ''1''" by (simp_all add: msg_def)
  from duplicate_anchor_ids_first_match [OF h, of "[?o]" "[?m2]" "[?m3]"]
  obtain k where k: "k \<le> 1"
    and fk: "find_pos (\<lambda>g. id_grp g = ''1'') ?G = Some k"
    and iff: "k = 1 \<longleftrightarrow> (\<forall>g\<in>set (messageGroups [?o]). id_grp g \<noteq> ''1'')"
    and m1: "message (?G ! 1) = ?a1"
    and at2: "?G ! 2 = \<lparr>id_grp = ''1'', message = ?a2, replies = []\<rparr>"
    and atk: "replies (?G ! k) =
      (if k < 1 then replies (messageGroups [?o] ! k) else []) @
      filter (\<lambda>m. parentId m = Some ''1'') ([?m2] @ [?m3])"
    unfolding ids by (auto simp: g0 l2)
  from iff have "k \<noteq> 1" by (simp add: g0)
  with k have k0: "k = 0" by simp
  have "filter (\<lambda>m. parentId m = Some ''1'') ([?m2] @ [?m3]) = [?m2, ?m3]"
    by (simp add: msg_def)
  with atk have "replies (?G ! 0) = [?m2, ?m3]" by (simp add: k0 g0)
  with fk m1 at2 show ?thesis by (simp add: k0 g0)
qed

text \<open>
  Counterexample to C10 as stated. First input: a promoted message with the id 1 comes
  before the two anchors with the id 1, and the later reply goes to its group, not to the
  group of the earliest of the two. Second input: the shared id is the empty string, and
  the later message whose \<^verbatim>\<open>parentId\<close> is the empty string starts a group of its own.
\<close>

theorem duplicate_anchor_ids_counterexample:
  "messageGroups [msg ''1'' (Some ''9''), msg ''1'' None, (msg ''1'' None)\<lparr>role := assistant\<rparr>,
       msg ''4'' (Some ''1'')] =
     [\<lparr>id_grp = ''1'', message = msg ''1'' (Some ''9''), replies = [msg ''4'' (Some ''1'')]\<rparr>,
      \<lparr>id_grp = ''1'', message = msg ''1'' None, replies = []\<rparr>,
      \<lparr>id_grp = ''1'', message = (msg ''1'' None)\<lparr>role := assistant\<rparr>, replies = []\<rparr>] \<and>
   messageGroups [msg [] None, (msg [] None)\<lparr>role := assistant\<rparr>, msg ''3'' (Some [])] =
     [\<lparr>id_grp = [], message = msg [] None, replies = []\<rparr>,
      \<lparr>id_grp = [], message = (msg [] None)\<lparr>role := assistant\<rparr>, replies = []\<rparr>,
      \<lparr>id_grp = ''3'', message = msg ''3'' (Some []), replies = []\<rparr>]"
  by (simp add: eval_defs)

end
